theory Spec2Isabelle
  imports Main "HOL-Library.Sublist"
begin

section \<open>The prompt patcher of \<^verbatim>\<open>scripts/update-prompts.py\<close>\<close>

text \<open>
  The script encodes the entries of a prompt mapping as \<^verbatim>\<open>KEY=base64\<close> lines and
  places them in an env file between two marker lines.

  A Python \<^verbatim>\<open>str\<close> is modelled as a \<^typ>\<open>string\<close> holding the UTF-8 bytes of the
  text, and \<^verbatim>\<open>bytes\<close> as a \<^typ>\<open>string\<close> as well, so that \<^verbatim>\<open>value.encode()\<close> is the
  representation itself. Searching for, splitting at and joining with ASCII text gives the
  same result on the UTF-8 bytes as on the code points. The file content is the text that
  \<^verbatim>\<open>f.read()\<close> returns and that \<^verbatim>\<open>f.write()\<close> receives.
\<close>

subsection \<open>Constants\<close>

definition START_MARKER :: string where
  "START_MARKER = ''# --- AUTO-GENERATED PROMPTS START (DO NOT EDIT MANUALLY) ---''"

definition END_MARKER :: string where
  "END_MARKER = ''# --- AUTO-GENERATED PROMPTS END ---''"

definition NL :: char where
  "NL = CHR 0x0A"

subsection \<open>The string operations of Python that the script uses\<close>

text \<open>\<^verbatim>\<open>sub in s\<close>: \<open>sub\<close> occurs in \<open>s\<close> as a contiguous run of characters.\<close>

fun str_in :: "string \<Rightarrow> string \<Rightarrow> bool" where
  "str_in sub [] = (sub = [])"
| "str_in sub (c # cs) = (prefix sub (c # cs) \<or> str_in sub cs)"

text \<open>\<^verbatim>\<open>s.endswith(t)\<close>.\<close>

definition endswith :: "string \<Rightarrow> string \<Rightarrow> bool" where
  "endswith s t = (length t \<le> length s \<and> drop (length s - length t) s = t)"

text \<open>\<^verbatim>\<open>s.split("\n")\<close>: the pieces between the newlines; never the empty list.\<close>

fun split_nl :: "string \<Rightarrow> string list" where
  "split_nl [] = [[]]"
| "split_nl (c # cs) =
     (if c = NL then [] # split_nl cs
      else (case split_nl cs of
              [] \<Rightarrow> [[c]]
            | l # ls \<Rightarrow> (c # l) # ls))"

text \<open>\<^verbatim>\<open>"\n".join(xs)\<close>.\<close>

fun join_nl :: "string list \<Rightarrow> string" where
  "join_nl [] = []"
| "join_nl [x] = x"
| "join_nl (x # y # ys) = x @ NL # join_nl (y # ys)"

text \<open>
  \<^verbatim>\<open>s.upper()\<close> on ASCII text: the letters \<open>a\<close> to \<open>z\<close> become \<open>A\<close> to \<open>Z\<close>, every
  other character stays. This is \<^verbatim>\<open>key.upper()\<close> for keys of ASCII characters;
  what is proved of the upper-casing below is stated for such keys (\<open>ascii_key\<close>).
\<close>

definition upper_chr :: "char \<Rightarrow> char" where
  "upper_chr c =
     (let n = (of_char c :: nat) in if 97 \<le> n \<and> n \<le> 122 then char_of (n - 32) else c)"

definition upper :: "string \<Rightarrow> string" where
  "upper s = map upper_chr s"

text \<open>\<^verbatim>\<open>s.replace(a, b)\<close> for one-character strings \<open>a\<close> and \<open>b\<close>.\<close>

definition replace :: "char \<Rightarrow> char \<Rightarrow> string \<Rightarrow> string" where
  "replace a b s = map (\<lambda>c. if c = a then b else c) s"

subsection \<open>Base64 (RFC 4648, the alphabet of \<^verbatim>\<open>base64.b64encode\<close>)\<close>

definition b64_alphabet :: string where
  "b64_alphabet = ''ABCDEFGHIJKLMNOPQRSTUVWXYZabcdefghijklmnopqrstuvwxyz0123456789+/''"

definition b64chr :: "nat \<Rightarrow> char" where
  "b64chr n = b64_alphabet ! n"

fun index_of :: "'a \<Rightarrow> 'a list \<Rightarrow> nat option" where
  "index_of x [] = None"
| "index_of x (y # ys) = (if x = y then Some 0 else map_option Suc (index_of x ys))"

definition b64val :: "char \<Rightarrow> nat option" where
  "b64val c = index_of c b64_alphabet"

text \<open>
  \<^verbatim>\<open>base64.b64encode(bs)\<close>: three bytes give four characters; a last group of one or two
  bytes is padded with \<open>=\<close>.
\<close>

fun b64encode :: "string \<Rightarrow> string" where
  "b64encode [] = []"
| "b64encode [a] =
     (let x = (of_char a :: nat) in
      [b64chr (x div 4), b64chr ((x mod 4) * 16), CHR ''='', CHR ''=''])"
| "b64encode [a, b] =
     (let x = (of_char a :: nat); y = (of_char b :: nat) in
      [b64chr (x div 4), b64chr ((x mod 4) * 16 + y div 16), b64chr ((y mod 16) * 4),
       CHR ''=''])"
| "b64encode (a # b # c # bs) =
     (let x = (of_char a :: nat); y = (of_char b :: nat); z = (of_char c :: nat) in
      [b64chr (x div 4), b64chr ((x mod 4) * 16 + y div 16),
       b64chr ((y mod 16) * 4 + z div 64), b64chr (z mod 64)] @ b64encode bs)"

text \<open>
  The decoder of the same RFC, strict: the length is a multiple of four, padding stands
  only in the last group, every other character is of the alphabet.
\<close>

fun b64decode :: "string \<Rightarrow> string option" where
  "b64decode [] = Some []"
| "b64decode (p # q # r # s # rest) =
     (if rest = [] \<and> s = CHR ''='' then
        (if r = CHR ''='' then
           (case (b64val p, b64val q) of
              (Some i, Some j) \<Rightarrow> Some [char_of (i * 4 + j div 16)]
            | _ \<Rightarrow> None)
         else
           (case (b64val p, b64val q, b64val r) of
              (Some i, Some j, Some k) \<Rightarrow>
                Some [char_of (i * 4 + j div 16), char_of ((j mod 16) * 16 + k div 4)]
            | _ \<Rightarrow> None))
      else
        (case (b64val p, b64val q, b64val r, b64val s) of
           (Some i, Some j, Some k, Some l) \<Rightarrow>
             map_option
               (\<lambda>bs. char_of (i * 4 + j div 16) # char_of ((j mod 16) * 16 + k div 4)
                      # char_of ((k mod 4) * 64 + l) # bs)
               (b64decode rest)
         | _ \<Rightarrow> None))"
| "b64decode _ = None"

subsection \<open>\<^verbatim>\<open>encode_prompts\<close>\<close>

text \<open>
  \<^verbatim>\<open>prompts.items()\<close> of the loaded mapping is the list of its (key, value) pairs in
  insertion order. The body of the loop makes one line of one pair.
\<close>

definition env_key :: "string \<Rightarrow> string" where
  "env_key key = replace (CHR ''-'') (CHR ''_'') (upper key)"

definition encode_line :: "string \<times> string \<Rightarrow> string" where
  "encode_line kv = (case kv of (key, val) \<Rightarrow> env_key key @ ''='' @ b64encode val)"

fun encode_loop :: "(string \<times> string) list \<Rightarrow> string list \<Rightarrow> string list" where
  "encode_loop [] lines = lines"
| "encode_loop (kv # items) lines = encode_loop items (lines @ [encode_line kv])"

definition encode_prompts :: "(string \<times> string) list \<Rightarrow> string list" where
  "encode_prompts prompts = encode_loop prompts []"

subsection \<open>\<^verbatim>\<open>update_env_file\<close>\<close>

definition new_section :: "string list \<Rightarrow> string" where
  "new_section prompt_lines = join_nl ([START_MARKER] @ prompt_lines @ [END_MARKER])"

text \<open>
  The loop over the lines of the file (lines 68 to 77 of the script), with its accumulator
  \<^verbatim>\<open>new_lines\<close> and its flag \<^verbatim>\<open>skip\<close>.
\<close>

fun replace_loop :: "string \<Rightarrow> string list \<Rightarrow> string list \<Rightarrow> bool \<Rightarrow> string list" where
  "replace_loop section [] new_lines skip = new_lines"
| "replace_loop section (line # lines) new_lines skip =
     (if str_in START_MARKER line then replace_loop section lines (new_lines @ [section]) True
      else if str_in END_MARKER line then replace_loop section lines new_lines False
      else if \<not> skip then replace_loop section lines (new_lines @ [line]) skip
      else replace_loop section lines new_lines skip)"

text \<open>
  The text that is written back, computed from the text that was read (lines 51 to 84):
  the replacing branch when both markers occur in the content, the appending branch
  otherwise.
\<close>

definition new_content :: "string \<Rightarrow> string list \<Rightarrow> string" where
  "new_content content prompt_lines =
     (let section = new_section prompt_lines;
          has_start = str_in START_MARKER content;
          has_end = str_in END_MARKER content
      in if has_start \<and> has_end then
           join_nl (replace_loop section (split_nl content) [] False)
         else
           (if \<not> endswith content [NL] then content @ [NL] else content)
             @ [NL] @ section @ [NL])"

text \<open>
  The files (a path has a content or no file), and what was printed to the two streams,
  one entry for each \<^verbatim>\<open>print\<close>. \<^verbatim>\<open>sys.exit(1)\<close> ends the run with status 1; a
  normal return is \<open>Inr ()\<close>. Opening the file for writing and writing the new content
  replaces the content at the path.
\<close>

record world =
  files :: "string \<rightharpoonup> string"
  stdout :: "string list"
  stderr :: "string list"

datatype error = SysExit nat

definition check_mark :: string where
  "check_mark = [CHR 0xE2, CHR 0x9C, CHR 0x85]"

definition update_env_file :: "world \<Rightarrow> string \<Rightarrow> string list \<Rightarrow> (error + unit) \<times> world" where
  "update_env_file w env_file prompt_lines =
     (case files w env_file of
        None \<Rightarrow>
          (Inl (SysExit 1),
           w\<lparr>stderr := stderr w @ [''Error: '' @ env_file @ '' not found'']\<rparr>)
      | Some content \<Rightarrow>
          (Inr (),
           w\<lparr>files := (files w)(env_file \<mapsto> new_content content prompt_lines),
             stdout := stdout w @ [check_mark @ '' Prompts updated in '' @ env_file]\<rparr>))"

subsection \<open>What the specification calls things\<close>

text \<open>
  The branch that the body of the loop takes for a line: the line is taken for the start
  sentinel, for the end sentinel, or for an ordinary line.
\<close>

datatype line_class = StartSentinel | EndSentinel | Ordinary

definition classify :: "string \<Rightarrow> line_class" where
  "classify line =
     (if str_in START_MARKER line then StartSentinel
      else if str_in END_MARKER line then EndSentinel
      else Ordinary)"

text \<open>The trimmed line of the specification: \<^verbatim>\<open>line.strip()\<close>.\<close>

definition is_space :: "char \<Rightarrow> bool" where
  "is_space c = (c \<in> set [CHR '' '', CHR 0x09, CHR 0x0A, CHR 0x0B, CHR 0x0C, CHR 0x0D])"

definition strip :: "string \<Rightarrow> string" where
  "strip s = rev (dropWhile is_space (rev (dropWhile is_space s)))"

text \<open>
  The upper-snake-case transform in the words of the specification: every \<open>-\<close> becomes
  \<open>_\<close>, and all characters are upper-cased. Upper-casing is given here by the table of
  the 26 letters, independently of \<open>upper_chr\<close>.
\<close>

definition lower_letters :: string where
  "lower_letters = ''abcdefghijklmnopqrstuvwxyz''"

definition upper_letters :: string where
  "upper_letters = ''ABCDEFGHIJKLMNOPQRSTUVWXYZ''"

definition upper_cased :: "char \<Rightarrow> char" where
  "upper_cased c = (case map_of (zip lower_letters upper_letters) c of Some u \<Rightarrow> u | None \<Rightarrow> c)"

definition upper_snake_case :: "string \<Rightarrow> string" where
  "upper_snake_case key = map upper_cased (map (\<lambda>c. if c = CHR ''-'' then CHR ''_'' else c) key)"

text \<open>
  A key of ASCII characters only. The keys of a prompt set are lower-case and hyphenated
  and must give a valid key of an assignment line; on such keys \<open>upper\<close> is what
  \<^verbatim>\<open>key.upper()\<close> computes.
\<close>

fun ascii_key :: "string \<Rightarrow> bool" where
  "ascii_key [] = True"
| "ascii_key (c # cs) = ((of_char c :: nat) < 128 \<and> ascii_key cs)"

text \<open>The key and the payload of a line: the text before and after its first \<open>=\<close>.\<close>

definition line_key :: "string \<Rightarrow> string" where
  "line_key line = takeWhile (\<lambda>c. c \<noteq> CHR ''='') line"

definition payload :: "string \<Rightarrow> string" where
  "payload line = drop 1 (dropWhile (\<lambda>c. c \<noteq> CHR ''='') line)"

subsection \<open>Auxiliary notions\<close>

text \<open>
  Prompt lines none of whose pieces between newlines the loop would take for a sentinel,
  and line lists as the loop produces them: each entry is the new section or an ordinary
  line without a newline.
\<close>

definition marker_free :: "string list \<Rightarrow> bool" where
  "marker_free prompt_lines =
     (\<forall>l\<in>set prompt_lines. \<forall>p\<in>set (split_nl l). classify p = Ordinary)"

definition kept_or_section :: "string \<Rightarrow> string list \<Rightarrow> bool" where
  "kept_or_section sec xs = (\<forall>x\<in>set xs. x = sec \<or> (NL \<notin> set x \<and> classify x = Ordinary))"

text \<open>
  Lines written out as text: every line followed by a newline, and every line preceded by
  a newline.
\<close>

definition lines_before :: "string list \<Rightarrow> string" where
  "lines_before ls = concat (map (\<lambda>l. l @ [NL]) ls)"

definition lines_after :: "string list \<Rightarrow> string" where
  "lines_after ls = concat (map (\<lambda>l. NL # l) ls)"

text \<open>Three env files used as examples below.\<close>

definition env_with_block :: string where
  "env_with_block = ''A=1'' @ [NL] @ START_MARKER @ [NL] @ ''OLD=eA=='' @ [NL] @ END_MARKER
     @ [NL] @ ''B=2'' @ [NL]"

definition env_with_stray_start :: string where
  "env_with_stray_start = ''A=1'' @ [NL] @ START_MARKER @ [NL] @ ''OLD=eA=='' @ [NL] @ END_MARKER
     @ [NL] @ START_MARKER @ [NL] @ ''B=2'' @ [NL]"

definition env_with_comment :: string where
  "env_with_comment = ''A=1'' @ [NL] @ START_MARKER @ [NL] @ ''OLD=eA=='' @ [NL] @ END_MARKER
     @ [NL] @ ''# after '' @ START_MARKER @ [NL] @ ''B=2'' @ [NL]"

section \<open>Properties of the string operations\<close>

subsection \<open>Splitting and joining\<close>

lemma split_nl_not_Nil [simp]: "split_nl s \<noteq> []"
  by (induction s) (auto split: list.splits)

lemma split_nl_append_NL: "split_nl (a @ NL # b) = split_nl a @ split_nl b"
  by (induction a) (auto split: list.splits)

lemma join_nl_Cons: "ys \<noteq> [] \<Longrightarrow> join_nl (x # ys) = x @ NL # join_nl ys"
  by (cases ys) auto

lemma join_nl_append:
  "xs \<noteq> [] \<Longrightarrow> ys \<noteq> [] \<Longrightarrow> join_nl (xs @ ys) = join_nl xs @ NL # join_nl ys"
proof (induction xs rule: join_nl.induct)
  case (3 x y zs)
  then show ?case by simp
qed (simp_all add: join_nl_Cons)

lemma join_nl_eq_Nil_iff: "join_nl xs = [] \<longleftrightarrow> xs = [] \<or> xs = [[]]"
  by (induction xs rule: join_nl.induct) auto

lemma join_split: "join_nl (split_nl s) = s"
proof (induction s)
  case Nil
  show ?case by simp
next
  case (Cons c cs)
  obtain l ls where sp: "split_nl cs = l # ls"
    by (cases "split_nl cs") auto
  have hd_step: "join_nl ((c # l) # ls) = c # join_nl (l # ls)"
    by (cases ls) auto
  show ?case
  proof (cases "c = NL")
    case True
    then show ?thesis using Cons by (simp add: join_nl_Cons)
  next
    case False
    then show ?thesis using Cons sp hd_step by simp
  qed
qed

lemma split_nl_no_NL: "l \<in> set (split_nl s) \<Longrightarrow> NL \<notin> set l"
  by (induction s arbitrary: l) (auto split: if_splits list.splits)

lemma split_nl_chars: "l \<in> set (split_nl s) \<Longrightarrow> x \<in> set l \<Longrightarrow> x \<in> set s"
  by (induction s arbitrary: l) (fastforce split: if_splits list.splits)+

lemma split_nl_single: "NL \<notin> set l \<Longrightarrow> split_nl l = [l]"
  by (induction l) auto

lemma split_join: "xs \<noteq> [] \<Longrightarrow> split_nl (join_nl xs) = concat (map split_nl xs)"
proof (induction xs rule: join_nl.induct)
  case (3 x y zs)
  then show ?case by (simp add: split_nl_append_NL)
qed simp_all

lemma join_nl_nested:
  "ys \<noteq> [] \<Longrightarrow> join_nl (pre @ [join_nl ys] @ post) = join_nl (pre @ ys @ post)"
proof -
  assume ys: "ys \<noteq> []"
  have mid: "join_nl ([join_nl ys] @ post) = join_nl (ys @ post)"
    using ys by (cases "post = []") (simp_all add: join_nl_append join_nl_Cons)
  show ?thesis
  proof (cases "pre = []")
    case True
    then show ?thesis using mid by simp
  next
    case False
    then show ?thesis using mid ys by (simp add: join_nl_append)
  qed
qed

subsection \<open>Substring search\<close>

lemma str_in_sublist: "str_in sub s \<longleftrightarrow> sublist sub s"
  by (induction s) (auto simp: sublist_Cons_right)

lemma str_in_iff: "str_in sub s \<longleftrightarrow> (\<exists>pre post. s = pre @ sub @ post)"
  by (simp add: str_in_sublist sublist_def)

lemma str_in_chars: "str_in sub s \<Longrightarrow> set sub \<subseteq> set s"
  by (auto simp: str_in_iff)

lemma prefix_before_NL: "NL \<notin> set m \<Longrightarrow> prefix m (a @ NL # b) \<longleftrightarrow> prefix m a"
proof (induction a arbitrary: m)
  case Nil
  then show ?case by (cases m) auto
next
  case (Cons c a)
  then show ?case by (cases m) auto
qed

lemma str_in_append_NL:
  "NL \<notin> set m \<Longrightarrow> str_in m (a @ NL # b) \<longleftrightarrow> str_in m a \<or> str_in m b"
proof (induction a)
  case Nil
  then show ?case by (cases m) auto
next
  case (Cons c a)
  have "prefix m ((c # a) @ NL # b) \<longleftrightarrow> prefix m (c # a)"
    using Cons.prems by (rule prefix_before_NL)
  then show ?case using Cons by auto
qed

lemma str_in_join:
  "NL \<notin> set m \<Longrightarrow> xs \<noteq> [] \<Longrightarrow> str_in m (join_nl xs) \<longleftrightarrow> (\<exists>x\<in>set xs. str_in m x)"
proof (induction xs rule: join_nl.induct)
  case (3 x y zs)
  then show ?case by (simp add: str_in_append_NL)
qed simp_all

lemma str_in_split:
  "NL \<notin> set m \<Longrightarrow> str_in m s \<longleftrightarrow> (\<exists>l\<in>set (split_nl s). str_in m l)"
  using str_in_join [of m "split_nl s"] by (simp add: join_split)

lemma endswith_NL_iff: "endswith s [NL] \<longleftrightarrow> (\<exists>g. s = g @ [NL])"
proof
  assume "endswith s [NL]"
  then have "1 \<le> length s" and "drop (length s - 1) s = [NL]"
    by (simp_all add: endswith_def)
  then have "s = take (length s - 1) s @ [NL]"
    by (metis append_take_drop_id)
  then show "\<exists>g. s = g @ [NL]" ..
next
  assume "\<exists>g. s = g @ [NL]"
  then show "endswith s [NL]" by (auto simp: endswith_def)
qed


lemma endswith_join:
  "xs \<noteq> [] \<Longrightarrow> NL \<notin> set (last xs) \<Longrightarrow>
   endswith (join_nl xs) [NL] \<longleftrightarrow> last xs = [] \<and> 2 \<le> length xs"
proof (induction xs rule: join_nl.induct)
  case 1
  then show ?case by simp
next
  case (2 x)
  then show ?case by (auto simp: endswith_NL_iff)
next
  case (3 x y zs)
  have IH: "endswith (join_nl (y # zs)) [NL] \<longleftrightarrow> last (y # zs) = [] \<and> 2 \<le> length (y # zs)"
    using 3 by simp
  have step: "endswith (x @ NL # r) [NL] \<longleftrightarrow> r = [] \<or> endswith r [NL]" for r
    by (cases r rule: rev_cases) (auto simp: endswith_NL_iff)
  have nil: "join_nl (y # zs) = [] \<longleftrightarrow> y = [] \<and> zs = []"
    using join_nl_eq_Nil_iff [of "y # zs"] by auto
  show ?case
    using IH step [of "join_nl (y # zs)"] nil by (cases zs) auto
qed

section \<open>The encoder\<close>

lemma encode_loop_acc: "encode_loop items lines = lines @ map encode_line items"
  by (induction items arbitrary: lines) auto

lemma encode_prompts_map: "encode_prompts prompts = map encode_line prompts"
  by (simp add: encode_prompts_def encode_loop_acc)

subsection \<open>The key\<close>

lemma upper_chr_target:
  assumes eq: "upper_chr c = d"
    and d: "\<not> (65 \<le> (of_char d :: nat) \<and> (of_char d :: nat) \<le> 90)"
  shows "c = d"
proof (rule ccontr)
  assume ne: "c \<noteq> d"
  with eq have rng: "97 \<le> (of_char c :: nat) \<and> (of_char c :: nat) \<le> 122"
    and up: "char_of ((of_char c :: nat) - 32) = d"
    by (auto simp: upper_chr_def Let_def split: if_splits)
  from up have "(of_char (char_of ((of_char c :: nat) - 32)) :: nat) = of_char d"
    by simp
  then have "((of_char c :: nat) - 32) mod 256 = of_char d"
    by simp
  moreover have "((of_char c :: nat) - 32) mod 256 = of_char c - 32"
    using rng by (intro mod_less) linarith
  ultimately show False using rng d by linarith
qed

lemma upper_chr_hyphen: "upper_chr c = CHR ''-'' \<longleftrightarrow> c = CHR ''-''"
proof
  assume "upper_chr c = CHR ''-''"
  then show "c = CHR ''-''"
    by (rule upper_chr_target) simp
next
  assume "c = CHR ''-''"
  then show "upper_chr c = CHR ''-''"
    by (simp add: upper_chr_def)
qed

lemma upper_chr_underscore: "upper_chr (CHR ''_'') = CHR ''_''"
  by (simp add: upper_chr_def)

lemma length_letters: "length lower_letters = 26" "length upper_letters = 26"
  by (simp_all add: lower_letters_def upper_letters_def)

lemma distinct_lower_letters: "distinct lower_letters"
  by (simp add: lower_letters_def)

lemma lower_letters_codes: "map char_of [97..<123::nat] = lower_letters"
  by code_simp

lemma upper_chr_letters: "map upper_chr lower_letters = upper_letters"
  by code_simp

lemma lower_letter_iff: "c \<in> set lower_letters \<longleftrightarrow> 97 \<le> (of_char c :: nat) \<and> (of_char c :: nat) \<le> 122"
proof
  assume "c \<in> set lower_letters"
  then obtain n :: nat where n: "n \<in> set [97..<123]" and c: "c = char_of n"
    unfolding lower_letters_codes [symmetric] by auto
  from n have r: "97 \<le> n \<and> n < 123"
    by (simp only: set_upt atLeastLessThan_iff)
  then have "n < 256" by simp
  then have "(of_char c :: nat) = n" using c by simp
  then show "97 \<le> (of_char c :: nat) \<and> (of_char c :: nat) \<le> 122"
    using r by simp
next
  assume r: "97 \<le> (of_char c :: nat) \<and> (of_char c :: nat) \<le> 122"
  then have "(of_char c :: nat) \<in> set [97..<123]"
    by (simp only: set_upt atLeastLessThan_iff) simp
  then have "char_of (of_char c :: nat) \<in> set (map char_of [97..<123::nat])"
    unfolding set_map by (rule imageI)
  then have "char_of (of_char c :: nat) \<in> set lower_letters"
    by (simp only: lower_letters_codes)
  then show "c \<in> set lower_letters"
    by (simp only: char_of_char)
qed

lemma upper_chr_is_upper_cased: "upper_chr c = upper_cased c"
proof (cases "c \<in> set lower_letters")
  case True
  then obtain i where i: "i < 26" and c: "c = lower_letters ! i"
    by (auto simp: in_set_conv_nth length_letters)
  have "map_of (zip lower_letters upper_letters) (lower_letters ! i) = Some (upper_letters ! i)"
    using i by (intro map_of_zip_nth) (simp_all add: length_letters distinct_lower_letters)
  then have t: "upper_cased c = upper_letters ! i"
    by (simp add: upper_cased_def c)
  have "map upper_chr lower_letters ! i = upper_chr (lower_letters ! i)"
    using i by (intro nth_map) (simp add: length_letters)
  then have "upper_chr c = upper_letters ! i"
    by (simp add: upper_chr_letters c)
  with t show ?thesis by simp
next
  case False
  then have "map_of (zip lower_letters upper_letters) c = None"
    by (simp add: length_letters)
  then have t: "upper_cased c = c"
    by (simp add: upper_cased_def)
  have "\<not> (97 \<le> (of_char c :: nat) \<and> (of_char c :: nat) \<le> 122)"
    using False by (simp only: lower_letter_iff not_False_eq_True)
  then have "upper_chr c = c"
    by (auto simp: upper_chr_def Let_def)
  with t show ?thesis by simp
qed

lemma upper_cased_underscore: "upper_cased (CHR ''_'') = CHR ''_''"
  using upper_chr_is_upper_cased [of "CHR ''_''"] upper_chr_underscore by simp

lemma env_key_upper_snake: "env_key key = upper_snake_case key"
  by (induction key)
     (auto simp: env_key_def upper_snake_case_def replace_def upper_def
                 upper_chr_hyphen upper_chr_underscore upper_chr_is_upper_cased [symmetric])

lemma line_key_before_equals:
  assumes "CHR ''='' \<notin> set k"
  shows "line_key (k @ ''='' @ v) = k"
proof -
  have "takeWhile (\<lambda>c. c \<noteq> CHR ''='') (k @ CHR ''='' # v) = k"
    using assms by (induction k) auto
  then show ?thesis by (simp add: line_key_def)
qed

lemma env_key_no_hyphen: "CHR ''-'' \<notin> set (env_key key)"
  by (auto simp: env_key_def replace_def)

lemma env_key_no_equals:
  assumes "CHR ''='' \<notin> set key"
  shows "CHR ''='' \<notin> set (env_key key)"
proof
  assume "CHR ''='' \<in> set (env_key key)"
  then obtain c where c: "c \<in> set key"
    and e: "(if upper_chr c = CHR ''-'' then CHR ''_'' else upper_chr c) = CHR ''=''"
    by (auto simp: env_key_def replace_def upper_def)
  from e have "upper_chr c = CHR ''=''"
    by (auto split: if_splits)
  then have "c = CHR ''=''"
    by (rule upper_chr_target) simp
  with c assms show False by simp
qed

lemma payload_after_key:
  assumes "CHR ''='' \<notin> set k"
  shows "payload (k @ ''='' @ v) = v"
proof -
  have "dropWhile (\<lambda>c. c \<noteq> CHR ''='') (k @ CHR ''='' # v) = CHR ''='' # v"
    using assms by (induction k) auto
  then show ?thesis by (simp add: payload_def)
qed

subsection \<open>Base64: decoding undoes encoding\<close>

lemma index_of_nth: "distinct xs \<Longrightarrow> i < length xs \<Longrightarrow> index_of (xs ! i) xs = Some i"
proof (induction xs arbitrary: i)
  case Nil
  then show ?case by simp
next
  case (Cons x xs)
  show ?case
  proof (cases i)
    case 0
    then show ?thesis by simp
  next
    case (Suc j)
    then have "xs ! j \<in> set xs" and "index_of (xs ! j) xs = Some j"
      using Cons by simp_all
    then show ?thesis using Cons.prems Suc by auto
  qed
qed

lemma length_b64_alphabet: "length b64_alphabet = 64"
  by (simp add: b64_alphabet_def)

lemma distinct_b64_alphabet: "distinct b64_alphabet"
  by (simp add: b64_alphabet_def)

lemma b64val_b64chr: "n < 64 \<Longrightarrow> b64val (b64chr n) = Some n"
  unfolding b64val_def b64chr_def
  by (rule index_of_nth [OF distinct_b64_alphabet]) (simp add: length_b64_alphabet)

lemma b64chr_in_alphabet: "n < 64 \<Longrightarrow> b64chr n \<in> set b64_alphabet"
  unfolding b64chr_def by (rule nth_mem) (simp add: length_b64_alphabet)

lemma b64chr_not_pad: "n < 64 \<Longrightarrow> b64chr n \<noteq> CHR ''=''"
proof -
  have "CHR ''='' \<notin> set b64_alphabet"
    by (simp add: b64_alphabet_def)
  then show "n < 64 \<Longrightarrow> b64chr n \<noteq> CHR ''=''"
    using b64chr_in_alphabet [of n] by auto
qed

lemma byte_bound: "(of_char c :: nat) < 256"
  by simp

lemma sextets:
  fixes x y z :: nat
  assumes "x < 256" "y < 256" "z < 256"
  shows "x div 4 < 64" "(x mod 4) * 16 < 64" "(x mod 4) * 16 + y div 16 < 64"
    "(y mod 16) * 4 < 64" "(y mod 16) * 4 + z div 64 < 64" "z mod 64 < 64"
  using assms by (simp_all add: less_mult_imp_div_less)

lemma regroup1: "((x::nat) div 4) * 4 + ((x mod 4) * 16) div 16 = x"
  by simp

lemma regroup2: "(y::nat) < 256 \<Longrightarrow> (x div 4) * 4 + ((x mod 4) * 16 + y div 16) div 16 = x"
proof -
  assume "y < 256"
  then have "y div 16 < 16" by simp
  then show ?thesis by simp
qed

lemma regroup3:
  "(y::nat) < 256 \<Longrightarrow> (((x mod 4) * 16 + y div 16) mod 16) * 16 + ((y mod 16) * 4) div 4 = y"
proof -
  assume "y < 256"
  then have "y div 16 < 16" by simp
  then show ?thesis by simp
qed

lemma regroup4:
  "(y::nat) < 256 \<Longrightarrow> (z::nat) < 256 \<Longrightarrow>
   (((x mod 4) * 16 + y div 16) mod 16) * 16 + ((y mod 16) * 4 + z div 64) div 4 = y"
proof -
  assume "y < 256" and "z < 256"
  then have "y div 16 < 16" and "z div 64 < 4" by simp_all
  then show ?thesis by simp
qed

lemma regroup5: "(z::nat) < 256 \<Longrightarrow> (((y mod 16) * 4 + z div 64) mod 4) * 64 + z mod 64 = z"
proof -
  assume "z < 256"
  then have "z div 64 < 4" by simp
  then show ?thesis by simp
qed

lemma b64_roundtrip: "b64decode (b64encode bs) = Some bs"
proof (induction bs rule: b64encode.induct)
  case 1
  show ?case by simp
next
  case (2 a)
  define x where "x = (of_char a :: nat)"
  have x: "x < 256" by (simp add: x_def)
  have a: "char_of x = a" by (simp add: x_def)
  show ?case
    using sextets [OF x x x] regroup1 [of x] a
    by (simp add: x_def [symmetric] b64val_b64chr)
next
  case (3 a b)
  define x where "x = (of_char a :: nat)"
  define y where "y = (of_char b :: nat)"
  have x: "x < 256" and y: "y < 256" by (simp_all add: x_def y_def)
  have a: "char_of x = a" and b: "char_of y = b" by (simp_all add: x_def y_def)
  have pad: "b64chr ((y mod 16) * 4) \<noteq> CHR ''=''"
    using sextets(4) [OF y y y] by (rule b64chr_not_pad)
  show ?case
    using sextets [OF x y y] regroup2 [OF y, of x] regroup3 [OF y, of x] a b pad
    by (simp add: x_def [symmetric] y_def [symmetric] b64val_b64chr)
next
  case (4 a b c bs)
  define x where "x = (of_char a :: nat)"
  define y where "y = (of_char b :: nat)"
  define z where "z = (of_char c :: nat)"
  have x: "x < 256" and y: "y < 256" and z: "z < 256" by (simp_all add: x_def y_def z_def)
  have a: "char_of x = a" and b: "char_of y = b" and c: "char_of z = c"
    by (simp_all add: x_def y_def z_def)
  have pad: "b64chr (z mod 64) \<noteq> CHR ''=''"
    using sextets(6) [OF z z z] by (rule b64chr_not_pad)
  show ?case
    using sextets [OF x y z] regroup2 [OF y, of x] regroup4 [OF y z, of x] regroup5 [OF z, of y]
      a b c pad 4
    by (simp add: x_def [symmetric] y_def [symmetric] z_def [symmetric] b64val_b64chr)
qed

lemma b64encode_chars: "set (b64encode bs) \<subseteq> insert (CHR ''='') (set b64_alphabet)"
proof (induction bs rule: b64encode.induct)
  case 1
  show ?case by simp
next
  case (2 a)
  note s = sextets [OF byte_bound [of a] byte_bound [of a] byte_bound [of a]]
  show ?case
    using b64chr_in_alphabet [OF s(1)] b64chr_in_alphabet [OF s(2)]
    by (simp add: Let_def)
next
  case (3 a b)
  note s = sextets [OF byte_bound [of a] byte_bound [of b] byte_bound [of b]]
  show ?case
    using b64chr_in_alphabet [OF s(1)] b64chr_in_alphabet [OF s(3)] b64chr_in_alphabet [OF s(4)]
    by (simp add: Let_def)
next
  case (4 a b c bs)
  note s = sextets [OF byte_bound [of a] byte_bound [of b] byte_bound [of c]]
  show ?case
    using b64chr_in_alphabet [OF s(1)] b64chr_in_alphabet [OF s(3)] b64chr_in_alphabet [OF s(5)]
      b64chr_in_alphabet [OF s(6)] 4
    by (simp add: Let_def)
qed

lemma b64encode_no_hyphen: "CHR ''-'' \<notin> set (b64encode bs)"
proof -
  have "CHR ''-'' \<notin> insert (CHR ''='') (set b64_alphabet)"
    by (simp add: b64_alphabet_def)
  then show ?thesis
    using b64encode_chars [of bs] by blast
qed

section \<open>The loop and the patch transform\<close>

subsection \<open>The loop, branch by branch\<close>

lemma NL_notin_START: "NL \<notin> set START_MARKER"
  by (simp add: START_MARKER_def NL_def)

lemma NL_notin_END: "NL \<notin> set END_MARKER"
  by (simp add: END_MARKER_def NL_def)

lemma classify_START: "classify START_MARKER = StartSentinel"
  by (simp add: classify_def START_MARKER_def)

lemma classify_END: "classify END_MARKER = EndSentinel"
  by (simp add: classify_def START_MARKER_def END_MARKER_def)

lemma classify_Nil: "classify [] = Ordinary"
  by (simp add: classify_def START_MARKER_def END_MARKER_def)

lemma classify_Ordinary_iff:
  "classify l = Ordinary \<longleftrightarrow> \<not> str_in START_MARKER l \<and> \<not> str_in END_MARKER l"
  by (simp add: classify_def)

lemma classify_Start_iff: "classify l = StartSentinel \<longleftrightarrow> str_in START_MARKER l"
  by (simp add: classify_def)

lemma classify_End_iff:
  "classify l = EndSentinel \<longleftrightarrow> \<not> str_in START_MARKER l \<and> str_in END_MARKER l"
  by (simp add: classify_def)

lemma replace_loop_classify:
  "replace_loop sec (line # lines) acc skip =
     (case classify line of
        StartSentinel \<Rightarrow> replace_loop sec lines (acc @ [sec]) True
      | EndSentinel \<Rightarrow> replace_loop sec lines acc False
      | Ordinary \<Rightarrow> replace_loop sec lines (if skip then acc else acc @ [line]) skip)"
  by (simp add: classify_def)

lemma replace_loop_acc:
  "replace_loop sec ls acc skip = acc @ replace_loop sec ls [] skip"
proof (induction ls arbitrary: acc skip)
  case Nil
  show ?case by simp
next
  case (Cons l ls)
  show ?case
  proof (cases "classify l")
    case StartSentinel
    then show ?thesis
      using Cons [of "acc @ [sec]" True] Cons [of "[sec]" True]
      by (simp add: classify_Start_iff)
  next
    case EndSentinel
    then show ?thesis
      using Cons [of acc False] by (simp add: classify_End_iff)
  next
    case Ordinary
    show ?thesis
    proof (cases skip)
      case True
      then show ?thesis
        using Ordinary Cons [of acc True] by (simp add: classify_Ordinary_iff)
    next
      case False
      then show ?thesis
        using Ordinary Cons [of "acc @ [l]" False] Cons [of "[l]" False]
        by (simp add: classify_Ordinary_iff)
    qed
  qed
qed

lemma loop_keep:
  "\<forall>l\<in>set ls. classify l = Ordinary \<Longrightarrow>
   replace_loop sec (ls @ rest) acc False = replace_loop sec rest (acc @ ls) False"
  by (induction ls arbitrary: acc) (simp_all add: classify_Ordinary_iff)

lemma loop_skip:
  "\<forall>l\<in>set ls. classify l = Ordinary \<Longrightarrow>
   replace_loop sec (ls @ rest) acc True = replace_loop sec rest acc True"
  by (induction ls arbitrary: acc) (simp_all add: classify_Ordinary_iff)

lemma loop_start:
  "classify s = StartSentinel \<Longrightarrow>
   replace_loop sec (s # rest) acc skip = replace_loop sec rest (acc @ [sec]) True"
  by (simp add: classify_Start_iff)

lemma loop_end:
  "classify e = EndSentinel \<Longrightarrow>
   replace_loop sec (e # rest) acc skip = replace_loop sec rest acc False"
  by (simp add: classify_End_iff)

lemma loop_block:
  assumes pre: "\<forall>l\<in>set pre. classify l = Ordinary"
    and s: "classify s = StartSentinel"
    and old: "\<forall>l\<in>set old. classify l = Ordinary"
    and e: "classify e = EndSentinel"
    and post: "\<forall>l\<in>set post. classify l = Ordinary"
  shows "replace_loop sec (pre @ [s] @ old @ [e] @ post) [] False = pre @ [sec] @ post"
proof -
  have "replace_loop sec (pre @ [s] @ old @ [e] @ post) [] False
      = replace_loop sec (s # old @ [e] @ post) pre False"
    using loop_keep [OF pre, of sec "[s] @ old @ [e] @ post" "[]"] by simp
  also have "\<dots> = replace_loop sec (old @ [e] @ post) (pre @ [sec]) True"
    using s by (rule loop_start)
  also have "\<dots> = replace_loop sec (e # post) (pre @ [sec]) True"
    using loop_skip [OF old, of sec "[e] @ post" "pre @ [sec]"] by simp
  also have "\<dots> = replace_loop sec post (pre @ [sec]) False"
    using e by (rule loop_end)
  also have "\<dots> = pre @ [sec] @ post"
    using loop_keep [OF post, of sec "[]" "pre @ [sec]"] by simp
  finally show ?thesis .
qed

lemma has_marker_of_line:
  "NL \<notin> set m \<Longrightarrow> l \<in> set (split_nl content) \<Longrightarrow> str_in m l \<Longrightarrow> str_in m content"
  using str_in_split [of m content] by blast

lemma new_content_block:
  assumes sp: "split_nl content = pre @ [s] @ old @ [e] @ post"
    and pre: "\<forall>l\<in>set pre. classify l = Ordinary"
    and s: "classify s = StartSentinel"
    and old: "\<forall>l\<in>set old. classify l = Ordinary"
    and e: "classify e = EndSentinel"
    and post: "\<forall>l\<in>set post. classify l = Ordinary"
  shows "new_content content prompt_lines = join_nl (pre @ [new_section prompt_lines] @ post)"
proof -
  have "s \<in> set (split_nl content)" and "e \<in> set (split_nl content)"
    using sp by simp_all
  then have "str_in START_MARKER content" and "str_in END_MARKER content"
    using s e has_marker_of_line [OF NL_notin_START] has_marker_of_line [OF NL_notin_END]
    by (auto simp: classify_Start_iff classify_End_iff)
  then have "new_content content prompt_lines
      = join_nl (replace_loop (new_section prompt_lines) (split_nl content) [] False)"
    by (simp add: new_content_def)
  then show ?thesis
    using loop_block [OF pre s old e post] sp by simp
qed

lemma EndSentinel_not_Nil: "classify e = EndSentinel \<Longrightarrow> e \<noteq> []"
  using classify_Nil by auto

lemma split_new_section:
  "split_nl (new_section prompt_lines)
     = START_MARKER # concat (map split_nl prompt_lines) @ [END_MARKER]"
  by (simp add: new_section_def split_join split_nl_single NL_notin_START NL_notin_END)

lemma str_in_START_section: "str_in START_MARKER (new_section prompt_lines)"
proof -
  have "str_in START_MARKER START_MARKER"
    using classify_START by (simp add: classify_Start_iff)
  then show ?thesis
    unfolding new_section_def
    using str_in_join [OF NL_notin_START, of "[START_MARKER] @ prompt_lines @ [END_MARKER]"]
    by simp
qed

lemma str_in_END_section: "str_in END_MARKER (new_section prompt_lines)"
proof -
  have "str_in END_MARKER END_MARKER"
    using classify_END by (simp add: classify_End_iff)
  then show ?thesis
    unfolding new_section_def
    using str_in_join [OF NL_notin_END, of "[START_MARKER] @ prompt_lines @ [END_MARKER]"]
    by simp
qed

lemma loop_section:
  assumes "marker_free prompt_lines"
  shows "replace_loop sec (split_nl (new_section prompt_lines) @ rest) acc skip
           = replace_loop sec rest (acc @ [sec]) False"
proof -
  have mid: "\<forall>l\<in>set (concat (map split_nl prompt_lines)). classify l = Ordinary"
    using assms by (auto simp: marker_free_def)
  have "replace_loop sec (split_nl (new_section prompt_lines) @ rest) acc skip
      = replace_loop sec (concat (map split_nl prompt_lines) @ [END_MARKER] @ rest)
          (acc @ [sec]) True"
    unfolding split_new_section using loop_start [OF classify_START] by simp
  also have "\<dots> = replace_loop sec (END_MARKER # rest) (acc @ [sec]) True"
    using loop_skip [OF mid, of sec "[END_MARKER] @ rest" "acc @ [sec]"] by simp
  also have "\<dots> = replace_loop sec rest (acc @ [sec]) False"
    using classify_END by (rule loop_end)
  finally show ?thesis .
qed

lemma loop_rebuild:
  assumes "marker_free prompt_lines"
  shows "kept_or_section (new_section prompt_lines) xs \<Longrightarrow>
         replace_loop (new_section prompt_lines) (concat (map split_nl xs)) acc False = acc @ xs"
proof (induction xs arbitrary: acc)
  case Nil
  show ?case by simp
next
  case (Cons x xs)
  have tl: "kept_or_section (new_section prompt_lines) xs"
    using Cons.prems by (simp add: kept_or_section_def)
  have hd: "x = new_section prompt_lines \<or> (NL \<notin> set x \<and> classify x = Ordinary)"
    using Cons.prems by (simp add: kept_or_section_def)
  then show ?case
  proof
    assume x: "x = new_section prompt_lines"
    show ?thesis
      using loop_section [OF assms, of "new_section prompt_lines" "concat (map split_nl xs)" acc False]
        Cons.IH [OF tl, of "acc @ [x]"] x by simp
  next
    assume x: "NL \<notin> set x \<and> classify x = Ordinary"
    then have "split_nl x = [x]" by (simp add: split_nl_single)
    then show ?thesis
      using x Cons.IH [OF tl, of "acc @ [x]"] by (simp add: classify_Ordinary_iff)
  qed
qed

lemma new_content_fixpoint:
  assumes mf: "marker_free prompt_lines"
    and shape: "kept_or_section (new_section prompt_lines) xs"
    and sec: "new_section prompt_lines \<in> set xs"
  shows "new_content (join_nl xs) prompt_lines = join_nl xs"
proof -
  have ne: "xs \<noteq> []" using sec by auto
  have "str_in START_MARKER (join_nl xs)" and "str_in END_MARKER (join_nl xs)"
    using sec ne str_in_START_section str_in_END_section
      str_in_join [OF NL_notin_START ne] str_in_join [OF NL_notin_END ne]
    by blast+
  then have "new_content (join_nl xs) prompt_lines
      = join_nl (replace_loop (new_section prompt_lines) (split_nl (join_nl xs)) [] False)"
    by (simp add: new_content_def)
  also have "\<dots> = join_nl xs"
    using loop_rebuild [OF mf shape, of "[]"] ne by (simp add: split_join)
  finally show ?thesis .
qed

lemma loop_output_shape:
  "\<forall>l\<in>set ls. NL \<notin> set l \<Longrightarrow> kept_or_section sec (replace_loop sec ls [] skip)"
proof (induction ls arbitrary: skip)
  case Nil
  show ?case by (simp add: kept_or_section_def)
next
  case (Cons l ls)
  have tl: "kept_or_section sec (replace_loop sec ls [] sk)" for sk
    using Cons by simp
  have nl: "NL \<notin> set l" using Cons.prems by simp
  show ?case
  proof (cases "classify l")
    case StartSentinel
    then show ?thesis
      using tl [of True] replace_loop_acc [of sec ls "[sec]" True]
      by (simp add: classify_Start_iff kept_or_section_def)
  next
    case EndSentinel
    then show ?thesis
      using tl [of False] by (simp add: classify_End_iff)
  next
    case Ordinary
    show ?thesis
    proof (cases skip)
      case True
      then show ?thesis
        using Ordinary tl [of True] by (simp add: classify_Ordinary_iff)
    next
      case False
      then show ?thesis
        using Ordinary nl tl [of False] replace_loop_acc [of sec ls "[l]" False]
        by (auto simp: classify_Ordinary_iff kept_or_section_def classify_def)
    qed
  qed
qed

lemma loop_output_section:
  "\<exists>l\<in>set ls. str_in START_MARKER l \<Longrightarrow> sec \<in> set (replace_loop sec ls acc skip)"
proof (induction ls arbitrary: acc skip)
  case Nil
  then show ?case by simp
next
  case (Cons l ls)
  show ?case
  proof (cases "str_in START_MARKER l")
    case True
    then show ?thesis
      using replace_loop_acc [of sec ls "acc @ [sec]" True] by simp
  next
    case False
    then have "\<exists>l\<in>set ls. str_in START_MARKER l" using Cons.prems by simp
    then show ?thesis using Cons.IH False by simp
  qed
qed

lemma new_content_idem_present:
  assumes mf: "marker_free prompt_lines"
    and hs: "str_in START_MARKER content" and he: "str_in END_MARKER content"
  shows "new_content (new_content content prompt_lines) prompt_lines
           = new_content content prompt_lines"
proof -
  let ?sec = "new_section prompt_lines"
  let ?out = "replace_loop ?sec (split_nl content) [] False"
  have eq: "new_content content prompt_lines = join_nl ?out"
    using hs he by (simp add: new_content_def)
  have shape: "kept_or_section ?sec ?out"
    by (rule loop_output_shape) (simp add: split_nl_no_NL)
  have "\<exists>l\<in>set (split_nl content). str_in START_MARKER l"
    using hs str_in_split [OF NL_notin_START, of content] by simp
  then have sec: "?sec \<in> set ?out" by (rule loop_output_section)
  show ?thesis
    unfolding eq by (rule new_content_fixpoint [OF mf shape sec])
qed


subsection \<open>The encoded lines hold no sentinel\<close>

lemma encode_line_no_hyphen: "CHR ''-'' \<notin> set (encode_line kv)"
  by (cases kv) (simp add: encode_line_def env_key_no_hyphen b64encode_no_hyphen)

lemma no_hyphen_Ordinary: "CHR ''-'' \<notin> set l \<Longrightarrow> classify l = Ordinary"
proof -
  assume l: "CHR ''-'' \<notin> set l"
  have "CHR ''-'' \<in> set START_MARKER" and "CHR ''-'' \<in> set END_MARKER"
    by (simp_all add: START_MARKER_def END_MARKER_def)
  then have "\<not> str_in START_MARKER l" and "\<not> str_in END_MARKER l"
    using l str_in_chars by blast+
  then show ?thesis by (simp add: classify_Ordinary_iff)
qed

lemma marker_free_encode_prompts: "marker_free (encode_prompts prompts)"
  unfolding marker_free_def encode_prompts_map
proof (intro ballI)
  fix l p
  assume "l \<in> set (map encode_line prompts)" and p: "p \<in> set (split_nl l)"
  then have "CHR ''-'' \<notin> set l"
    using encode_line_no_hyphen by auto
  then have "CHR ''-'' \<notin> set p"
    using split_nl_chars [OF p] by blast
  then show "classify p = Ordinary"
    by (rule no_hyphen_Ordinary)
qed

subsection \<open>Joined lines as text\<close>

lemma join_nl_Cons_lines: "join_nl (x # ys) = x @ lines_after ys"
  by (induction ys arbitrary: x) (simp_all add: lines_after_def join_nl_Cons)

lemma join_nl_lines: "join_nl (pre @ x # post) = lines_before pre @ x @ lines_after post"
proof (induction pre)
  case Nil
  show ?case by (simp add: join_nl_Cons_lines lines_before_def)
next
  case (Cons p pre)
  have "join_nl ((p # pre) @ x # post) = p @ NL # join_nl (pre @ x # post)"
    by (simp add: join_nl_Cons)
  then show ?case using Cons by (simp add: lines_before_def)
qed

lemma lines_after_append: "lines_after (xs @ ys) = lines_after xs @ lines_after ys"
  by (simp add: lines_after_def)

lemma lines_after_Cons: "lines_after (x # xs) = NL # x @ lines_after xs"
  by (simp add: lines_after_def)

lemma new_section_lines:
  "new_section prompt_lines = START_MARKER @ lines_after prompt_lines @ [NL] @ END_MARKER"
  by (simp add: new_section_def join_nl_Cons_lines lines_after_append lines_after_def)

lemma split_join_lines:
  "xs \<noteq> [] \<Longrightarrow> \<forall>l\<in>set xs. NL \<notin> set l \<Longrightarrow> split_nl (join_nl xs) = xs"
proof -
  assume ne: "xs \<noteq> []" and nl: "\<forall>l\<in>set xs. NL \<notin> set l"
  have "concat (map split_nl xs) = xs"
    using nl by (induction xs) (simp_all add: split_nl_single)
  then show ?thesis using ne by (simp add: split_join)
qed

section \<open>The claims about the encoder\<close>

text \<open>
  C7. For the pair at any position of the prompt set, with a key of ASCII characters
  that holds no \<open>=\<close>, the line at the same position is the upper-snake-case transform of
  the key (every \<open>-\<close> replaced by \<open>_\<close>, all characters upper-cased), an \<open>=\<close> and the
  encoded value, and the key of the line (the text before its first \<open>=\<close>) is that
  transform. The source upper-cases first and replaces second; the transform of the
  specification replaces first and upper-cases by the table of letters. The key
  \<open>system-prompt\<close> gives the line key \<open>SYSTEM_PROMPT\<close>: this is the witness.
\<close>

theorem C7_env_key_is_upper_snake_case:
  assumes "i < length prompts" and "prompts ! i = (key, val)"
    and "ascii_key key" and "CHR ''='' \<notin> set key"
  shows "encode_prompts prompts ! i = upper_snake_case key @ ''='' @ b64encode val
         \<and> line_key (encode_prompts prompts ! i) = upper_snake_case key"
proof -
  have line: "encode_prompts prompts ! i = env_key key @ ''='' @ b64encode val"
    using assms(1,2) by (simp add: encode_prompts_map encode_line_def)
  have "line_key (env_key key @ ''='' @ b64encode val) = env_key key"
    using assms(4) by (intro line_key_before_equals env_key_no_equals)
  then show ?thesis
    using line by (simp add: env_key_upper_snake)
qed

theorem C7_env_key_is_upper_snake_case_witness:
  "(0::nat) < length [(''system-prompt'', ''bar'')]
   \<and> [(''system-prompt'', ''bar'')] ! 0 = (''system-prompt'', ''bar'')
   \<and> ascii_key ''system-prompt'' \<and> CHR ''='' \<notin> set ''system-prompt''
   \<and> upper_snake_case ''system-prompt'' = ''SYSTEM_PROMPT''
   \<and> encode_prompts [(''system-prompt'', ''bar'')] ! 0 = ''SYSTEM_PROMPT=YmFy''
   \<and> line_key (encode_prompts [(''system-prompt'', ''bar'')] ! 0) = ''SYSTEM_PROMPT''"
proof -
  have l: "(0::nat) < length [(''system-prompt'', ''bar'')]" by simp
  have n: "[(''system-prompt'', ''bar'')] ! 0 = (''system-prompt'', ''bar'')" by simp
  have a: "ascii_key ''system-prompt''" by simp
  have k: "CHR ''='' \<notin> set ''system-prompt''" by simp
  have u: "upper_snake_case ''system-prompt'' = ''SYSTEM_PROMPT''"
    by (simp add: upper_snake_case_def upper_cased_def lower_letters_def upper_letters_def)
  have b: "b64encode ''bar'' = ''YmFy''" by code_simp
  have t: "encode_prompts [(''system-prompt'', ''bar'')] ! 0
             = upper_snake_case ''system-prompt'' @ ''='' @ b64encode ''bar''
           \<and> line_key (encode_prompts [(''system-prompt'', ''bar'')] ! 0)
             = upper_snake_case ''system-prompt''"
    by (rule C7_env_key_is_upper_snake_case [OF l n a k])
  from t have "encode_prompts [(''system-prompt'', ''bar'')] ! 0 = ''SYSTEM_PROMPT=YmFy''"
    and "line_key (encode_prompts [(''system-prompt'', ''bar'')] ! 0) = ''SYSTEM_PROMPT''"
    unfolding u b by (simp_all add: line_key_def)
  with l n a k u show ?thesis by blast
qed

text \<open>
  C6. For the pair at any position of the prompt set, decoding the payload of the line at
  the same position (the text after its first \<open>=\<close>) gives back the bytes of the value;
  an empty value has an empty payload. The keys of a prompt set are lower-case words
  joined by hyphens, so they hold no \<open>=\<close>: this is what makes the first \<open>=\<close> of the line
  the one that the encoder wrote.
\<close>

theorem C6_payload_decodes_to_value:
  "i < length prompts \<Longrightarrow> prompts ! i = (key, val) \<Longrightarrow> CHR ''='' \<notin> set key \<Longrightarrow>
   b64decode (payload (encode_prompts prompts ! i)) = Some val
   \<and> (val = [] \<longrightarrow> payload (encode_prompts prompts ! i) = [])"
proof -
  assume i: "i < length prompts" and kv: "prompts ! i = (key, val)"
    and key: "CHR ''='' \<notin> set key"
  have line: "encode_prompts prompts ! i = env_key key @ ''='' @ b64encode val"
    using i kv by (simp add: encode_prompts_map encode_line_def)
  have "payload (encode_prompts prompts ! i) = b64encode val"
    unfolding line using key by (intro payload_after_key env_key_no_equals)
  then show ?thesis
    by (auto simp: b64_roundtrip)
qed

theorem C6_payload_decodes_to_value_witness:
  "(1::nat) < length [(''system-prompt'', ''bar''), (''empty'', [])]
   \<and> [(''system-prompt'', ''bar''), (''empty'', [])] ! 1 = (''empty'', [])
   \<and> CHR ''='' \<notin> set ''empty''
   \<and> encode_prompts [(''system-prompt'', ''bar''), (''empty'', [])]
       = [''SYSTEM_PROMPT=YmFy'', ''EMPTY='']
   \<and> b64decode (payload ''EMPTY='') = Some []
   \<and> payload ''EMPTY='' = []"
proof -
  have l: "(1::nat) < length [(''system-prompt'', ''bar''), (''empty'', [])]"
    by simp
  have n: "[(''system-prompt'', ''bar''), (''empty'', [])] ! 1 = (''empty'', [])"
    by simp
  have k: "CHR ''='' \<notin> set ''empty''"
    by simp
  have e: "encode_prompts [(''system-prompt'', ''bar''), (''empty'', [])]
       = [''SYSTEM_PROMPT=YmFy'', ''EMPTY='']"
    by code_simp
  show ?thesis
    using C6_payload_decodes_to_value [OF l n k] l n k e by simp
qed

section \<open>The claims about the patch operation on the files\<close>

text \<open>
  C8. When no file exists at the target path, the patch operation ends with exit status 1
  after printing a diagnostic to the error stream, and it writes nothing: the files are
  the same as before, and there is still no file at the path.
\<close>

theorem C8_missing_target_no_write:
  "files w env_file = None \<Longrightarrow>
   update_env_file w env_file prompt_lines
     = (Inl (SysExit 1), w\<lparr>stderr := stderr w @ [''Error: '' @ env_file @ '' not found'']\<rparr>)
   \<and> files (snd (update_env_file w env_file prompt_lines)) = files w
   \<and> files (snd (update_env_file w env_file prompt_lines)) env_file = None"
  by (simp add: update_env_file_def)

theorem C8_missing_target_no_write_witness:
  "files \<lparr>files = Map.empty, stdout = [], stderr = []\<rparr> ''.env.dev'' = None
   \<and> update_env_file \<lparr>files = Map.empty, stdout = [], stderr = []\<rparr> ''.env.dev'' [''FOO=YmFy'']
     = (Inl (SysExit 1),
        \<lparr>files = Map.empty, stdout = [], stderr = [''Error: .env.dev not found'']\<rparr>)"
  using C8_missing_target_no_write
          [of "\<lparr>files = Map.empty, stdout = [], stderr = []\<rparr>" "''.env.dev''" "[''FOO=YmFy'']"]
  by simp

text \<open>
  C1. The specification asks that a file whose content holds exactly one of the two
  sentinels makes the patch operation fail with a malformed-block error and stay as it
  is. The source has no such case. At the file that holds the start sentinel only, the
  operation returns normally and writes the content with a block appended; run again on
  what it wrote, it changes the content once more, against the docstring of the script
  (\<open>Running it multiple times produces the same result\<close>).
\<close>

theorem C1_one_sentinel_file_rewritten:
  "fst (update_env_file
          \<lparr>files = [''.env'' \<mapsto> ''A=1'' @ [NL] @ START_MARKER @ [NL]], stdout = [], stderr = []\<rparr>
          ''.env'' [''FOO=YmFy'']) = Inr ()
   \<and> files (snd (update_env_file
          \<lparr>files = [''.env'' \<mapsto> ''A=1'' @ [NL] @ START_MARKER @ [NL]], stdout = [], stderr = []\<rparr>
          ''.env'' [''FOO=YmFy''])) ''.env''
       = Some (''A=1'' @ [NL] @ START_MARKER @ [NL] @ [NL]
               @ START_MARKER @ [NL] @ ''FOO=YmFy'' @ [NL] @ END_MARKER @ [NL])
   \<and> new_content (''A=1'' @ [NL] @ START_MARKER @ [NL] @ [NL]
               @ START_MARKER @ [NL] @ ''FOO=YmFy'' @ [NL] @ END_MARKER @ [NL]) [''FOO=YmFy'']
       = ''A=1'' @ [NL] @ START_MARKER @ [NL] @ ''FOO=YmFy'' @ [NL] @ END_MARKER @ [NL]
         @ START_MARKER @ [NL] @ ''FOO=YmFy'' @ [NL] @ END_MARKER @ [NL]
   \<and> new_content (new_content (''A=1'' @ [NL] @ START_MARKER @ [NL]) [''FOO=YmFy'']) [''FOO=YmFy'']
       \<noteq> new_content (''A=1'' @ [NL] @ START_MARKER @ [NL]) [''FOO=YmFy'']
   \<and> str_in START_MARKER (''A=1'' @ [NL] @ START_MARKER @ [NL])
   \<and> \<not> str_in END_MARKER (''A=1'' @ [NL] @ START_MARKER @ [NL])"
  by (simp add: update_env_file_def new_content_def new_section_def START_MARKER_def
                END_MARKER_def NL_def endswith_def)

section \<open>The claim about the recognition of the sentinels\<close>

text \<open>
  C2, as the specification states it: the locator takes a line for a sentinel exactly when
  the whole trimmed line equals one of the two sentinel strings, and a line that only
  contains a sentinel string among other text is not a sentinel. The loop tests with
  \<^verbatim>\<open>in\<close>: the line \<open>export P=\<close> followed by the start sentinel is taken for the start
  sentinel although its trimmed text is neither sentinel string, and the loop over four
  lines replaces it, drops the line \<open>A=1\<close> after it and the line holding the end
  sentinel in a comment.
\<close>

theorem C2_exact_line_counterexample:
  "classify (''export P='' @ START_MARKER) = StartSentinel
   \<and> strip (''export P='' @ START_MARKER) \<noteq> START_MARKER
   \<and> strip (''export P='' @ START_MARKER) \<noteq> END_MARKER
   \<and> replace_loop ''S'' [''export P='' @ START_MARKER, ''A=1'', ''# end: '' @ END_MARKER, ''B=2'']
        [] False = [''S'', ''B=2'']"
  by (simp add: classify_def strip_def is_space_def START_MARKER_def END_MARKER_def)

text \<open>
  C2, amended: the loop takes a line for a sentinel exactly when the line contains one of
  the two sentinel strings as a substring, whatever text stands around it. (Lemma
  \<open>replace_loop_classify\<close> is the loop body in terms of this classification.)
\<close>

theorem C2_sentinel_iff_substring:
  "classify line \<noteq> Ordinary \<longleftrightarrow>
     (\<exists>pre post. line = pre @ START_MARKER @ post) \<or> (\<exists>pre post. line = pre @ END_MARKER @ post)"
  by (simp add: classify_def str_in_iff)

section \<open>The claims about the patch transform\<close>

text \<open>
  C5, as stated: for every content that holds neither sentinel, exactly one blank line
  separates the prior content from the appended block. The empty file holds neither
  sentinel; the source first ends it with a newline and then adds the separating newline,
  so the block comes after two blank lines, not one.
\<close>

theorem C5_empty_file_counterexample:
  "\<not> str_in START_MARKER [] \<and> \<not> str_in END_MARKER []
   \<and> new_content [] [''FOO=YmFy'']
       = [NL] @ [NL] @ START_MARKER @ [NL] @ ''FOO=YmFy'' @ [NL] @ END_MARKER @ [NL]
   \<and> new_content [] [''FOO=YmFy'']
       \<noteq> [NL] @ START_MARKER @ [NL] @ ''FOO=YmFy'' @ [NL] @ END_MARKER @ [NL]"
  by (simp add: new_content_def new_section_def endswith_def START_MARKER_def END_MARKER_def NL_def)

text \<open>
  C5, amended: when the content is not empty and holds neither sentinel string, the new
  content is the old content, ended by a newline if it was not, then exactly one more
  newline (the blank line), the start sentinel, the encoded lines and the end sentinel,
  each on a line of its own, and exactly one newline at the end. The witness has the
  example of the specification, \<open>A=1\<close> ended by a newline with the line \<open>FOO=YmFy\<close>, and
  the same content without its final newline.
\<close>

theorem C5_absent_block_appended:
  assumes "\<not> str_in START_MARKER content" and "\<not> str_in END_MARKER content"
    and "content \<noteq> []"
  shows "new_content content prompt_lines
           = (if last content = NL then content else content @ [NL])
             @ [NL] @ START_MARKER @ lines_after prompt_lines @ [NL] @ END_MARKER @ [NL]"
proof -
  have "endswith content [NL] \<longleftrightarrow> last content = NL"
    using assms(3) by (cases content rule: rev_cases) (auto simp: endswith_NL_iff)
  then show ?thesis
    using assms(1,2) by (simp add: new_content_def new_section_lines)
qed

theorem C5_absent_block_appended_witness:
  "\<not> str_in START_MARKER (''A=1'' @ [NL]) \<and> \<not> str_in END_MARKER (''A=1'' @ [NL])
   \<and> ''A=1'' @ [NL] \<noteq> []
   \<and> new_content (''A=1'' @ [NL]) [''FOO=YmFy'']
     = ''A=1'' @ [NL] @ [NL] @ START_MARKER @ [NL] @ ''FOO=YmFy'' @ [NL] @ END_MARKER @ [NL]
   \<and> \<not> str_in START_MARKER ''A=1'' \<and> \<not> str_in END_MARKER ''A=1'' \<and> ''A=1'' \<noteq> []
   \<and> new_content ''A=1'' [''FOO=YmFy'']
     = ''A=1'' @ [NL] @ [NL] @ START_MARKER @ [NL] @ ''FOO=YmFy'' @ [NL] @ END_MARKER @ [NL]"
proof -
  have s: "\<not> str_in START_MARKER (''A=1'' @ [NL])"
    by (simp add: START_MARKER_def NL_def)
  have e: "\<not> str_in END_MARKER (''A=1'' @ [NL])"
    by (simp add: END_MARKER_def NL_def)
  have n: "''A=1'' @ [NL] \<noteq> []" by simp
  have s': "\<not> str_in START_MARKER ''A=1''"
    by (simp add: START_MARKER_def)
  have e': "\<not> str_in END_MARKER ''A=1''"
    by (simp add: END_MARKER_def)
  have n': "''A=1'' \<noteq> []" by simp
  have l': "last ''A=1'' \<noteq> NL" by (simp add: NL_def)
  have a: "new_content (''A=1'' @ [NL]) [''FOO=YmFy'']
     = ''A=1'' @ [NL] @ [NL] @ START_MARKER @ [NL] @ ''FOO=YmFy'' @ [NL] @ END_MARKER @ [NL]"
    using C5_absent_block_appended [OF s e n, of "[''FOO=YmFy'']"]
    by (simp add: lines_after_def)
  have b: "new_content ''A=1'' [''FOO=YmFy'']
     = ''A=1'' @ [NL] @ [NL] @ START_MARKER @ [NL] @ ''FOO=YmFy'' @ [NL] @ END_MARKER @ [NL]"
    using C5_absent_block_appended [OF s' e' n', of "[''FOO=YmFy'']"] l'
    by (simp add: lines_after_def)
  from s e n a s' e' n' b show ?thesis by blast
qed

text \<open>
  C4, as stated: for every content with a well-formed managed block, the lines outside
  the sentinels stay as they are. The file here has one start sentinel line, one end
  sentinel line after it, and after the block a comment line that mentions the text of
  the start sentinel; trimmed, that line is neither sentinel. The loop takes the comment
  line for a start sentinel: it writes the block a second time in its place and drops
  the line \<open>B=2\<close> and the final newline.
\<close>

theorem C4_comment_line_counterexample:
  "env_with_comment
     = ''A=1'' @ [NL] @ START_MARKER @ [NL] @ ''OLD=eA=='' @ [NL] @ END_MARKER @ [NL]
       @ (''# after '' @ START_MARKER) @ [NL] @ ''B=2'' @ [NL]
   \<and> strip (''# after '' @ START_MARKER) \<noteq> START_MARKER
   \<and> strip (''# after '' @ START_MARKER) \<noteq> END_MARKER
   \<and> new_content env_with_comment [''FOO=YmFy'']
       = ''A=1'' @ [NL] @ START_MARKER @ [NL] @ ''FOO=YmFy'' @ [NL] @ END_MARKER
         @ [NL] @ START_MARKER @ [NL] @ ''FOO=YmFy'' @ [NL] @ END_MARKER
   \<and> new_content env_with_comment [''FOO=YmFy'']
       \<noteq> ''A=1'' @ [NL] @ START_MARKER @ [NL] @ ''FOO=YmFy'' @ [NL] @ END_MARKER @ [NL]
         @ (''# after '' @ START_MARKER) @ [NL] @ ''B=2'' @ [NL]"
  by (simp add: new_content_def new_section_def strip_def is_space_def env_with_comment_def
                START_MARKER_def END_MARKER_def NL_def)

text \<open>
  C4, amended: when the two sentinel lines of the block are the only lines of the file
  that contain a sentinel string (the lines are: lines with no sentinel string, the line
  with the start sentinel, lines with no sentinel string, the line with the end
  sentinel, lines with no sentinel string), then for any new lines the new content is
  the lines before the start sentinel as they were, the start sentinel, the new lines in
  order, the end sentinel, and the lines after the end sentinel as they were. The old
  lines between the sentinels are not part of it.
\<close>

theorem C4_block_replaced_rest_unchanged:
  assumes content: "content = lines_before pre @ s @ lines_after old @ [NL] @ e @ lines_after post"
    and lines: "\<forall>l\<in>set (pre @ [s] @ old @ [e] @ post). NL \<notin> set l"
    and pre: "\<forall>l\<in>set pre. classify l = Ordinary"
    and s: "classify s = StartSentinel"
    and old: "\<forall>l\<in>set old. classify l = Ordinary"
    and e: "classify e = EndSentinel"
    and post: "\<forall>l\<in>set post. classify l = Ordinary"
  shows "new_content content prompt_lines
           = lines_before pre @ START_MARKER @ lines_after prompt_lines @ [NL] @ END_MARKER
             @ lines_after post"
proof -
  have "content = join_nl (pre @ s # (old @ [e] @ post))"
    unfolding join_nl_lines content by (simp add: lines_after_append lines_after_Cons)
  then have "split_nl content = pre @ [s] @ old @ [e] @ post"
    using split_join_lines [OF _ lines] by simp
  then have "new_content content prompt_lines
      = join_nl (pre @ new_section prompt_lines # post)"
    using new_content_block [OF _ pre s old e post] by simp
  then show ?thesis
    by (simp add: join_nl_lines new_section_lines)
qed

theorem C4_block_replaced_rest_unchanged_witness:
  "env_with_block
     = lines_before [''A=1''] @ START_MARKER @ lines_after [''OLD=eA==''] @ [NL] @ END_MARKER
       @ lines_after [''B=2'', []]
   \<and> NL \<notin> set ''A=1'' \<and> NL \<notin> set START_MARKER \<and> NL \<notin> set ''OLD=eA=='' \<and> NL \<notin> set END_MARKER
   \<and> NL \<notin> set ''B=2'' \<and> NL \<notin> set ''''
   \<and> classify ''A=1'' = Ordinary
   \<and> classify START_MARKER = StartSentinel
   \<and> classify ''OLD=eA=='' = Ordinary
   \<and> classify END_MARKER = EndSentinel
   \<and> classify ''B=2'' = Ordinary \<and> classify [] = Ordinary
   \<and> new_content env_with_block [''FOO=YmFy'', ''BAZ='']
       = ''A=1'' @ [NL] @ START_MARKER @ [NL] @ ''FOO=YmFy'' @ [NL] @ ''BAZ='' @ [NL] @ END_MARKER
         @ [NL] @ ''B=2'' @ [NL]"
proof -
  have c: "env_with_block
     = lines_before [''A=1''] @ START_MARKER @ lines_after [''OLD=eA==''] @ [NL] @ END_MARKER
       @ lines_after [''B=2'', []]"
    by (simp add: env_with_block_def lines_before_def lines_after_def)
  have nl: "\<forall>l\<in>set ([''A=1''] @ [START_MARKER] @ [''OLD=eA==''] @ [END_MARKER] @ [''B=2'', []]).
              NL \<notin> set l"
    by (simp add: NL_notin_START NL_notin_END) (simp add: NL_def)
  have pre: "\<forall>l\<in>set [''A=1'']. classify l = Ordinary"
    by (simp add: classify_def START_MARKER_def END_MARKER_def)
  have old: "\<forall>l\<in>set [''OLD=eA==''].  classify l = Ordinary"
    by (simp add: classify_def START_MARKER_def END_MARKER_def)
  have post: "\<forall>l\<in>set [''B=2'', []]. classify l = Ordinary"
    by (simp add: classify_def START_MARKER_def END_MARKER_def)
  have t: "new_content env_with_block [''FOO=YmFy'', ''BAZ='']
       = lines_before [''A=1''] @ START_MARKER @ lines_after [''FOO=YmFy'', ''BAZ=''] @ [NL]
         @ END_MARKER @ lines_after [''B=2'', []]"
    by (rule C4_block_replaced_rest_unchanged [OF c nl pre classify_START old classify_END post])
  have v: "new_content env_with_block [''FOO=YmFy'', ''BAZ='']
       = ''A=1'' @ [NL] @ START_MARKER @ [NL] @ ''FOO=YmFy'' @ [NL] @ ''BAZ='' @ [NL] @ END_MARKER
         @ [NL] @ ''B=2'' @ [NL]"
    unfolding t by (simp add: lines_before_def lines_after_def)
  from nl have "NL \<notin> set ''A=1''" and "NL \<notin> set ''OLD=eA==''" and "NL \<notin> set ''B=2''"
    and "NL \<notin> set ''''"
    by simp_all
  moreover from pre old post have "classify ''A=1'' = Ordinary"
    and "classify ''OLD=eA=='' = Ordinary" and "classify ''B=2'' = Ordinary"
    and "classify [] = Ordinary"
    by simp_all
  ultimately show ?thesis
    using c v classify_START classify_END NL_notin_START NL_notin_END by blast
qed

text \<open>
  C10, as stated: whenever both sentinels are present, the new content ends with a
  newline if and only if the old content did, and no line outside the block is added or
  removed. The file here holds a block and, after it, a second line with the start
  sentinel; it ends with a newline. The loop starts skipping again at the second start
  sentinel and finds no end sentinel after it: the line \<open>B=2\<close> and the final newline are
  gone from the new content.
\<close>

theorem C10_trailing_newline_counterexample:
  "str_in START_MARKER env_with_stray_start \<and> str_in END_MARKER env_with_stray_start
   \<and> endswith env_with_stray_start [NL]
   \<and> new_content env_with_stray_start [''FOO=YmFy'']
       = ''A=1'' @ [NL] @ START_MARKER @ [NL] @ ''FOO=YmFy'' @ [NL] @ END_MARKER
         @ [NL] @ START_MARKER @ [NL] @ ''FOO=YmFy'' @ [NL] @ END_MARKER
   \<and> \<not> endswith (new_content env_with_stray_start [''FOO=YmFy'']) [NL]"
  by (simp add: new_content_def new_section_def endswith_def env_with_stray_start_def
                START_MARKER_def END_MARKER_def NL_def)

text \<open>
  C10, amended: when the file has a well-formed managed block (exactly one line taken for
  the start sentinel, later exactly one line taken for the end sentinel, every other line
  ordinary), the new content ends with a newline if and only if the old content did, and
  the lines before and after the block, blank ones included, are the same as before.
\<close>

theorem C10_wellformed_block_keeps_trailing_newline:
  assumes sp: "split_nl content = pre @ [s] @ old @ [e] @ post"
    and pre: "\<forall>l\<in>set pre. classify l = Ordinary"
    and s: "classify s = StartSentinel"
    and old: "\<forall>l\<in>set old. classify l = Ordinary"
    and e: "classify e = EndSentinel"
    and post: "\<forall>l\<in>set post. classify l = Ordinary"
  shows "(endswith (new_content content prompt_lines) [NL] \<longleftrightarrow> endswith content [NL])
         \<and> new_content content prompt_lines = join_nl (pre @ [new_section prompt_lines] @ post)"
proof -
  let ?ins = "pre @ [s] @ old @ [e] @ post"
  let ?outs = "pre @ [START_MARKER] @ prompt_lines @ [END_MARKER] @ post"
  have out: "new_content content prompt_lines = join_nl (pre @ [new_section prompt_lines] @ post)"
    using sp pre s old e post by (rule new_content_block)
  have "join_nl (pre @ [new_section prompt_lines] @ post)
          = join_nl (pre @ ([START_MARKER] @ prompt_lines @ [END_MARKER]) @ post)"
    unfolding new_section_def by (rule join_nl_nested) simp
  then have out': "new_content content prompt_lines = join_nl ?outs"
    using out by simp
  have inp: "content = join_nl ?ins"
    using join_split [of content] sp by simp
  have e_ne: "e \<noteq> []" using e by (rule EndSentinel_not_Nil)
  have END_ne: "END_MARKER \<noteq> []" by (simp add: END_MARKER_def)
  have nl_in: "NL \<notin> set (last ?ins)"
    using split_nl_no_NL [of "last ?ins" content] sp last_in_set [of ?ins] by auto
  have nl_post: "post \<noteq> [] \<Longrightarrow> NL \<notin> set (last post)"
    using nl_in by simp
  have nl_out: "NL \<notin> set (last ?outs)"
    using nl_post NL_notin_END by simp
  have "endswith (join_nl ?outs) [NL] \<longleftrightarrow> last ?outs = [] \<and> 2 \<le> length ?outs"
    using nl_out by (intro endswith_join) simp
  also have "\<dots> \<longleftrightarrow> post \<noteq> [] \<and> last post = []"
    using END_ne by auto
  also have "\<dots> \<longleftrightarrow> last ?ins = [] \<and> 2 \<le> length ?ins"
    using e_ne by auto
  also have "\<dots> \<longleftrightarrow> endswith (join_nl ?ins) [NL]"
    using nl_in by (intro endswith_join [symmetric]) simp
  finally show ?thesis
    using out out' inp by simp
qed

theorem C10_wellformed_block_keeps_trailing_newline_witness:
  "split_nl env_with_block
     = [''A=1''] @ [START_MARKER] @ [''OLD=eA==''] @ [END_MARKER] @ [''B=2'', []]
   \<and> classify ''A=1'' = Ordinary
   \<and> classify START_MARKER = StartSentinel
   \<and> classify ''OLD=eA=='' = Ordinary
   \<and> classify END_MARKER = EndSentinel
   \<and> classify ''B=2'' = Ordinary \<and> classify [] = Ordinary
   \<and> endswith env_with_block [NL]
   \<and> endswith (new_content env_with_block []) [NL]
   \<and> new_content env_with_block [] = join_nl [''A=1'', new_section [], ''B=2'', []]"
proof -
  have sp: "split_nl env_with_block
     = [''A=1''] @ [START_MARKER] @ [''OLD=eA==''] @ [END_MARKER] @ [''B=2'', []]"
    by (simp add: env_with_block_def START_MARKER_def END_MARKER_def NL_def)
  have pre: "\<forall>l\<in>set [''A=1'']. classify l = Ordinary"
    by (simp add: classify_def START_MARKER_def END_MARKER_def)
  have old: "\<forall>l\<in>set [''OLD=eA==''].  classify l = Ordinary"
    by (simp add: classify_def START_MARKER_def END_MARKER_def)
  have post: "\<forall>l\<in>set [''B=2'', []]. classify l = Ordinary"
    by (simp add: classify_def START_MARKER_def END_MARKER_def)
  have nl: "endswith env_with_block [NL]"
    by (simp add: endswith_def env_with_block_def START_MARKER_def END_MARKER_def)
  have t: "(endswith (new_content env_with_block []) [NL] \<longleftrightarrow> endswith env_with_block [NL])
      \<and> new_content env_with_block [] = join_nl ([''A=1''] @ [new_section []] @ [''B=2'', []])"
    by (rule C10_wellformed_block_keeps_trailing_newline
               [OF sp pre classify_START old classify_END post])
  from t nl have a: "endswith (new_content env_with_block []) [NL]"
    by blast
  from t have b: "new_content env_with_block [] = join_nl [''A=1'', new_section [], ''B=2'', []]"
    by (simp only: append.simps)
  from pre old post have "classify ''A=1'' = Ordinary" and "classify ''OLD=eA=='' = Ordinary"
    and "classify ''B=2'' = Ordinary" and "classify [] = Ordinary"
    by simp_all
  with sp classify_START classify_END nl a b show ?thesis
    by blast
qed

text \<open>
  C3. For every prompt set and every content that holds both sentinels (a well-formed
  block in particular), patching the patched content again with the same encoded lines
  changes nothing. No hypothesis on the keys or values is needed: an encoded line never
  contains a hyphen, so it never contains a sentinel.
\<close>

theorem C3_patch_idempotent_on_block:
  "str_in START_MARKER content \<Longrightarrow> str_in END_MARKER content \<Longrightarrow>
   new_content (new_content content (encode_prompts prompts)) (encode_prompts prompts)
     = new_content content (encode_prompts prompts)"
  using marker_free_encode_prompts by (rule new_content_idem_present)

theorem C3_patch_idempotent_on_block_witness:
  "str_in START_MARKER env_with_block \<and> str_in END_MARKER env_with_block
   \<and> encode_prompts [(''foo'', ''bar'')] = [''FOO=YmFy'']
   \<and> new_content env_with_block [''FOO=YmFy'']
       = ''A=1'' @ [NL] @ START_MARKER @ [NL] @ ''FOO=YmFy'' @ [NL] @ END_MARKER @ [NL]
         @ ''B=2'' @ [NL]
   \<and> new_content (new_content env_with_block [''FOO=YmFy'']) [''FOO=YmFy'']
       = new_content env_with_block [''FOO=YmFy'']"
proof -
  have s: "str_in START_MARKER env_with_block"
    by (simp add: env_with_block_def START_MARKER_def END_MARKER_def NL_def)
  have e: "str_in END_MARKER env_with_block"
    by (simp add: env_with_block_def START_MARKER_def END_MARKER_def NL_def)
  have p: "encode_prompts [(''foo'', ''bar'')] = [''FOO=YmFy'']"
    by code_simp
  have v: "new_content env_with_block [''FOO=YmFy'']
       = ''A=1'' @ [NL] @ START_MARKER @ [NL] @ ''FOO=YmFy'' @ [NL] @ END_MARKER @ [NL]
         @ ''B=2'' @ [NL]"
    by (simp add: new_content_def new_section_def env_with_block_def START_MARKER_def
                  END_MARKER_def NL_def)
  show ?thesis
    using C3_patch_idempotent_on_block [OF s e, of "[(''foo'', ''bar'')]"] s e p v by simp
qed



end
